theory Spec2Isabelle
  imports Main
begin

section \<open>The control-flow graph\<close>

text \<open>
  A \<^verbatim>\<open>BasicBlock*\<close> is a stable identity; it is modelled as an address into a store of
  blocks. A block keeps its instructions in order. Every block handed to a function pass
  ends in exactly one terminator, so the terminator is kept apart from the other
  instructions and is represented by its successor list
  (\<^verbatim>\<open>getSuccessor(0)\<close> .. \<^verbatim>\<open>getSuccessor(getNumSuccessors()-1)\<close>). The predecessor
  list is the sequence \<^verbatim>\<open>pred_begin(bb)\<close> .. \<^verbatim>\<open>pred_end(bb)\<close> in iteration order.
\<close>

type_synonym bid = nat

datatype inst = PHINode nat | Barrier | Other nat

record block =
  insts :: "inst list"
  succs :: "bid list"
  preds :: "bid list"

text \<open>
  A function is its block list in layout order (\<^verbatim>\<open>F.begin()\<close> .. \<^verbatim>\<open>F.end()\<close>) and the
  store of blocks. The entry block is the front of the layout.
\<close>

record func =
  layout :: "bid list"
  blk :: "bid \<Rightarrow> block"

definition getEntryBlock :: "func \<Rightarrow> bid" where
  "getEntryBlock F = hd (layout F)"

section \<open>External collaborators\<close>

text \<open>
  The kernel predicate (\<^verbatim>\<open>Workgroup::isKernelToProcess\<close>), the barrier predicates
  (\<^verbatim>\<open>Barrier::hasBarrier\<close>, \<^verbatim>\<open>isa<BarrierBlock>\<close>) and the two dominance analyses
  (\<^verbatim>\<open>getAnalysis<DominatorTree>()\<close>, \<^verbatim>\<open>getAnalysis<PostDominatorTree>()\<close>) are defined
  outside the pass. They are parameters of the model. The barrier predicates look at
  the content of a block, so they are evaluated on the block as it is at the time of
  the call. The analyses are computed before the pass runs and are not recomputed.
\<close>

record oracles =
  isKernelToProcess :: "func \<Rightarrow> bool"
  hasBarrier :: "block \<Rightarrow> bool"
  isBarrierBlock :: "block \<Rightarrow> bool"
  DT_dominates :: "bid \<Rightarrow> bid \<Rightarrow> bool"
  PDT_dominates :: "bid \<Rightarrow> bid \<Rightarrow> bool"

text \<open>
  What C++ leaves undefined is an error value of the model: dereferencing a predecessor
  iterator that has reached \<^verbatim>\<open>pred_end\<close>, and applying \<^verbatim>\<open>isa<>\<close> to a null pointer.
\<close>

datatype error = PredIteratorOutOfRange | NullPointer

section \<open>firstNonBackedgePredecessor\<close>

text \<open>
  The scan \<^verbatim>\<open>while (DT->dominates(bb, *I) && I != E) ++I;\<close>. The left operand of
  \<^verbatim>\<open>&&\<close> is evaluated first, so \<^verbatim>\<open>*I\<close> is read before \<^verbatim>\<open>I != E\<close> is tested: when
  the iterator has reached the end the read is out of range.
\<close>

fun skipBackedges :: "(bid \<Rightarrow> bool) \<Rightarrow> bid list \<Rightarrow> error + bid" where
  "skipBackedges dominated [] = Inl PredIteratorOutOfRange"
| "skipBackedges dominated (p # ps) =
     (if dominated p then skipBackedges dominated ps else Inr p)"

text \<open>
  \<^verbatim>\<open>NULL\<close> is \<open>None\<close>. The scan leaves its loop only at a predecessor that is not
  dominated, so the second \<^verbatim>\<open>if (I == E) return NULL;\<close> is never taken.
\<close>

definition firstNonBackedgePredecessor :: "oracles \<Rightarrow> func \<Rightarrow> bid \<Rightarrow> error + bid option" where
  "firstNonBackedgePredecessor ora F bb =
     (case preds (blk F bb) of
        [] \<Rightarrow> Inr None
      | p # ps \<Rightarrow>
          (case skipBackedges (DT_dominates ora bb) (p # ps) of
             Inl e \<Rightarrow> Inl e
           | Inr q \<Rightarrow> Inr (Some q)))"

section \<open>runOnFunction\<close>

subsection \<open>Collecting the conditional barriers\<close>

text \<open>
  The first loop of \<^verbatim>\<open>runOnFunction\<close>: blocks in layout order, \<^verbatim>\<open>push_back\<close> appends.
\<close>

fun collectConditionalBarriers :: "oracles \<Rightarrow> func \<Rightarrow> bid list \<Rightarrow> bid list \<Rightarrow> bid list" where
  "collectConditionalBarriers ora F conditionalBarriers [] = conditionalBarriers"
| "collectConditionalBarriers ora F conditionalBarriers (b # rest) =
     (if \<not> hasBarrier ora (blk F b) then collectConditionalBarriers ora F conditionalBarriers rest
      else if PDT_dominates ora b (getEntryBlock F)
        then collectConditionalBarriers ora F conditionalBarriers rest
      else collectConditionalBarriers ora F (conditionalBarriers @ [b]) rest)"

subsection \<open>Tracing upwards to the split point\<close>

text \<open>
  The loop \<^verbatim>\<open>while (!isa<BarrierBlock>(pos) && PDT->dominates(b, pos))\<close>. It may run
  forever; not returning is the value \<open>None\<close>. The result is the value of \<^verbatim>\<open>pos\<close>
  after the loop.
\<close>

lemma case_option_mono [partial_function_mono]:
  assumes "mono_option (\<lambda>f. n f)" and "\<And>x. mono_option (\<lambda>f. s f x)"
  shows "mono_option (\<lambda>f. case v of None \<Rightarrow> n f | Some x \<Rightarrow> s f x)"
  using assms by (cases v) simp_all

partial_function (option) traceLoop ::
  "oracles \<Rightarrow> func \<Rightarrow> bid \<Rightarrow> bid option \<Rightarrow> (error + bid) option" where
  "traceLoop ora F b pos =
     (case pos of
        None \<Rightarrow> Some (Inl NullPointer)
      | Some p \<Rightarrow>
          if \<not> isBarrierBlock ora (blk F p) \<and> PDT_dominates ora b p then
            (case firstNonBackedgePredecessor ora F p of
               Inl e \<Rightarrow> Some (Inl e)
             | Inr pos' \<Rightarrow>
                 if pos' = Some b then Some (Inr b) else traceLoop ora F b pos')
          else Some (Inr p))"

definition traceSplitPoint :: "oracles \<Rightarrow> func \<Rightarrow> bid \<Rightarrow> (error + bid) option" where
  "traceSplitPoint ora F b =
     (case firstNonBackedgePredecessor ora F b of
        Inl e \<Rightarrow> Some (Inl e)
      | Inr pos \<Rightarrow> traceLoop ora F b pos)"

subsection \<open>Injecting the barriers\<close>

definition isPHI :: "inst \<Rightarrow> bool" where
  "isPHI i = (case i of PHINode _ \<Rightarrow> True | _ \<Rightarrow> False)"

text \<open>
  \<^verbatim>\<open>getFirstNonPHI\<close> walks from the front of the block while it sees PHI nodes. An
  instruction is named by its position; the position \<open>length (insts B)\<close> is the
  terminator.
\<close>

definition getFirstNonPHI :: "block \<Rightarrow> nat" where
  "getFirstNonPHI B = length (takeWhile isPHI (insts B))"

text \<open>
  Modelled from the spec: the barrier marker class of \<^verbatim>\<open>Barrier.h\<close>, which is not among
  the sources. \<^verbatim>\<open>isa<Barrier>(where)\<close> holds when the instruction at that position is a
  barrier marker, and \<^verbatim>\<open>Barrier::Create(where)\<close> inserts a new barrier marker before
  the instruction at that position.
\<close>

definition isaBarrier :: "block \<Rightarrow> nat \<Rightarrow> bool" where
  "isaBarrier B k = (k < length (insts B) \<and> insts B ! k = Barrier)"

definition Barrier_Create :: "block \<Rightarrow> nat \<Rightarrow> block" where
  "Barrier_Create B k = B\<lparr>insts := take k (insts B) @ Barrier # drop k (insts B)\<rparr>"

text \<open>The loop over the successors of the terminator of \<^verbatim>\<open>pos\<close>.\<close>

fun injectBarriers :: "func \<Rightarrow> bid list \<Rightarrow> func" where
  "injectBarriers F [] = F"
| "injectBarriers F (s # ss) =
     (let w = getFirstNonPHI (blk F s) in
      if isaBarrier (blk F s) w then injectBarriers F ss
      else injectBarriers (F\<lparr>blk := (blk F)(s := Barrier_Create (blk F s) w)\<rparr>) ss)"

subsection \<open>The loop over the conditional barriers\<close>

fun repairBarriers ::
  "oracles \<Rightarrow> bid list \<Rightarrow> bool \<Rightarrow> func \<Rightarrow> (error + bool \<times> func) option" where
  "repairBarriers ora [] changed F = Some (Inr (changed, F))"
| "repairBarriers ora (b # bs) changed F =
     (case traceSplitPoint ora F b of
        None \<Rightarrow> None
      | Some (Inl e) \<Rightarrow> Some (Inl e)
      | Some (Inr pos) \<Rightarrow>
          if isBarrierBlock ora (blk F pos) \<or> pos = b then repairBarriers ora bs changed F
          else repairBarriers ora bs True (injectBarriers F (succs (blk F pos))))"

definition runOnFunction :: "oracles \<Rightarrow> func \<Rightarrow> (error + bool \<times> func) option" where
  "runOnFunction ora F =
     (if \<not> isKernelToProcess ora F then Some (Inr (False, F))
      else
        let conditionalBarriers = collectConditionalBarriers ora F [] (layout F) in
        if length conditionalBarriers = 0 then Some (Inr (False, F))
        else repairBarriers ora conditionalBarriers False F)"

section \<open>Notions of the specification\<close>

text \<open>
  Modelled from the spec: "the first non-trivial operation of \<open>s\<close> is already a barrier
  marker", and a block with "a new barrier marker at the head". PHI nodes are the trivial
  operations that \<^verbatim>\<open>getFirstNonPHI\<close> skips.
\<close>

definition startsWithBarrier :: "block \<Rightarrow> bool" where
  "startsWithBarrier B = (case dropWhile isPHI (insts B) of [] \<Rightarrow> False | i # _ \<Rightarrow> i = Barrier)"

definition withBarrierAtHead :: "block \<Rightarrow> block" where
  "withBarrierAtHead B =
     B\<lparr>insts := takeWhile isPHI (insts B) @ Barrier # dropWhile isPHI (insts B)\<rparr>"

text \<open>
  Modelled from the spec: the dominance oracle, which the pass obtains from analyses that
  are not among the sources. \<open>dominates(A,B)\<close>: every path from entry to \<open>B\<close> passes
  through \<open>A\<close>. \<open>postDominates(A,B)\<close>: every path from \<open>B\<close> to any function exit passes
  through \<open>A\<close>; an exit is a block whose terminator has no successor. Both are computed
  from the blocks that a path avoiding \<open>A\<close> can reach; a path visits no block twice
  without need, so one round per block of the layout saturates the search.
\<close>

fun reachFrom :: "(bid \<Rightarrow> bid list) \<Rightarrow> bid list \<Rightarrow> bid list \<Rightarrow> bid list" where
  "reachFrom step [] seen = seen"
| "reachFrom step (_ # rounds) seen =
     reachFrom step rounds (remdups (seen @ concat (map step seen)))"

definition reachableAvoiding :: "func \<Rightarrow> bid \<Rightarrow> bid \<Rightarrow> bid list" where
  "reachableAvoiding F a src =
     (if src = a then []
      else reachFrom (\<lambda>x. filter (\<lambda>y. y \<noteq> a) (succs (blk F x))) (layout F) [src])"

definition cfgDominates :: "func \<Rightarrow> bid \<Rightarrow> bid \<Rightarrow> bool" where
  "cfgDominates F a b = (a = b \<or> b \<notin> set (reachableAvoiding F a (getEntryBlock F)))"

definition cfgPostDominates :: "func \<Rightarrow> bid \<Rightarrow> bid \<Rightarrow> bool" where
  "cfgPostDominates F a b =
     (a = b \<or> \<not> list_ex (\<lambda>x. succs (blk F x) = []) (reachableAvoiding F a b))"

text \<open>
  Modelled from the spec: "a well-formed, single-entry CFG". The layout is not empty
  and names each block once, the edges stay inside the function, the entry block has no
  predecessor, and \<open>x\<close> occurs in the predecessor list of \<open>y\<close> as often as \<open>y\<close> occurs
  among the successors of \<open>x\<close>.
\<close>

definition wellFormed :: "func \<Rightarrow> bool" where
  "wellFormed F =
     (layout F \<noteq> [] \<and> distinct (layout F) \<and> preds (blk F (getEntryBlock F)) = [] \<and>
      list_all (\<lambda>x.
        list_all (\<lambda>y. y \<in> set (layout F)) (succs (blk F x)) \<and>
        list_all (\<lambda>y. y \<in> set (layout F)) (preds (blk F x)) \<and>
        list_all (\<lambda>y. count_list (preds (blk F y)) x = count_list (succs (blk F x)) y) (layout F))
      (layout F))"

text \<open>
  Modelled from the spec: the barrier predicates, whose code is not among the sources.
  "A block has a barrier if a barrier marker appears as its first non-trivial operation;
  the notion is binary per block." The examples below only use barrier blocks that hold
  nothing but the marker and the terminator. Every function of the examples is a kernel.
\<close>

definition specOracles :: "func \<Rightarrow> oracles" where
  "specOracles F =
     \<lparr>isKernelToProcess = (\<lambda>_. True),
      hasBarrier = startsWithBarrier,
      isBarrierBlock = startsWithBarrier,
      DT_dominates = cfgDominates F,
      PDT_dominates = cfgPostDominates F\<rparr>"

text \<open>
  What one run may do to a function: the layout stays, and every block either stays as it
  is or, when it did not begin with a barrier marker, gets one marker at its head.
\<close>

definition barriersAdded :: "func \<Rightarrow> func \<Rightarrow> bool" where
  "barriersAdded F F' =
     (layout F' = layout F \<and>
      (\<forall>s. blk F' s = blk F s \<or>
           (\<not> startsWithBarrier (blk F s) \<and> blk F' s = withBarrierAtHead (blk F s))))"

text \<open>
  The edges that the trace may follow backwards: from a block to a predecessor that the
  block does not dominate.
\<close>

definition nonBackedges :: "oracles \<Rightarrow> func \<Rightarrow> (bid \<times> bid) set" where
  "nonBackedges ora F = {(p, x). p \<in> set (preds (blk F x)) \<and> \<not> DT_dominates ora x p}"

text \<open>
  The outcomes of the trace: a failure, or a block that is a barrier block, or the barrier
  block \<open>b\<close> itself, or a block that \<open>b\<close> does not post-dominate.
\<close>

definition traceOutcome :: "oracles \<Rightarrow> func \<Rightarrow> bid \<Rightarrow> error + bid \<Rightarrow> bool" where
  "traceOutcome ora F b r =
     (case r of
        Inl e \<Rightarrow> True
      | Inr pos \<Rightarrow> isBarrierBlock ora (blk F pos) \<or> pos = b \<or> \<not> PDT_dominates ora b pos)"

text \<open>
  A split point is located for \<open>b\<close>: the trace returns a block that is neither a
  barrier block nor \<open>b\<close> itself.
\<close>

definition splitPointLocated :: "oracles \<Rightarrow> func \<Rightarrow> bid \<Rightarrow> bool" where
  "splitPointLocated ora F b =
     (\<exists>pos. traceSplitPoint ora F b = Some (Inr pos) \<and>
            \<not> isBarrierBlock ora (blk F pos) \<and> pos \<noteq> b)"

text \<open>The edges of a successor function, for stating what \<open>reachFrom\<close> computes.\<close>

definition stepEdges :: "(bid \<Rightarrow> bid list) \<Rightarrow> (bid \<times> bid) set" where
  "stepEdges step = {(x, y). y \<in> set (step x)}"

section \<open>Example functions\<close>

definition mkBlock :: "inst list \<Rightarrow> bid list \<Rightarrow> bid list \<Rightarrow> block" where
  "mkBlock is ss ps = \<lparr>insts = is, succs = ss, preds = ps\<rparr>"

definition noBlock :: "bid \<Rightarrow> block" where
  "noBlock = (\<lambda>_. mkBlock [] [] [])"

text \<open>
  Scenario A: entry 0 to A; A to B and C; B and C to D; D has a barrier and is the exit.
\<close>

definition diamondSafe :: func where
  "diamondSafe =
     \<lparr>layout = [0, 1, 2, 3, 4],
      blk = noBlock
        (0 := mkBlock [Other 0] [1] [],
         1 := mkBlock [Other 1] [2, 3] [0],
         2 := mkBlock [Other 2] [4] [1],
         3 := mkBlock [Other 3] [4] [1],
         4 := mkBlock [Barrier] [] [3, 2])\<rparr>"

text \<open>Scenario B: the same diamond with the barrier in B.\<close>

definition diamondUnsafe :: func where
  "diamondUnsafe =
     \<lparr>layout = [0, 1, 2, 3, 4],
      blk = noBlock
        (0 := mkBlock [Other 0] [1] [],
         1 := mkBlock [Other 1] [2, 3] [0],
         2 := mkBlock [Barrier] [4] [1],
         3 := mkBlock [PHINode 5, Other 3] [4] [1],
         4 := mkBlock [Other 4] [] [3, 2])\<rparr>"

text \<open>Scenario B after the repair: C begins with a barrier marker too.\<close>

definition diamondRepaired :: func where
  "diamondRepaired =
     \<lparr>layout = [0, 1, 2, 3, 4],
      blk = (blk diamondUnsafe)(3 := mkBlock [PHINode 5, Barrier, Other 3] [4] [1])\<rparr>"

text \<open>The entry branches to two blocks that both begin with a barrier marker.\<close>

definition bothGuarded :: func where
  "bothGuarded =
     \<lparr>layout = [0, 1, 2, 3],
      blk = noBlock
        (0 := mkBlock [Other 0] [1, 2] [],
         1 := mkBlock [Barrier] [3] [0],
         2 := mkBlock [Barrier] [3] [0],
         3 := mkBlock [Other 3] [] [2, 1])\<rparr>"

text \<open>
  A loop with two entries: 1 branches to 2 and to 3, 2 and 3 branch to each other, 2
  leaves the loop to the barrier block 4, and the entry 0 can bypass all of it.
\<close>

definition twoEntryLoop :: func where
  "twoEntryLoop =
     \<lparr>layout = [0, 1, 2, 3, 4, 5],
      blk = noBlock
        (0 := mkBlock [Other 0] [1, 5] [],
         1 := mkBlock [Other 1] [2, 3] [0],
         2 := mkBlock [Other 2] [3, 4] [3, 1],
         3 := mkBlock [Other 3] [2] [2, 1],
         4 := mkBlock [Barrier] [5] [2],
         5 := mkBlock [Other 5] [] [4, 0])\<rparr>"

text \<open>
  Scenario C: block 1 loops on itself and leaves to the barrier block 2; the entry 0 can
  bypass both. The back edge comes first among the predecessors of 1.
\<close>

definition loopBypass :: func where
  "loopBypass =
     \<lparr>layout = [0, 1, 2, 3],
      blk = noBlock
        (0 := mkBlock [Other 0] [1, 3] [],
         1 := mkBlock [Other 1] [1, 2] [1, 0],
         2 := mkBlock [Barrier] [3] [1],
         3 := mkBlock [Other 3] [] [2, 0])\<rparr>"

text \<open>A barrier block that no block branches to.\<close>

definition orphanBarrier :: func where
  "orphanBarrier =
     \<lparr>layout = [0, 1],
      blk = noBlock
        (0 := mkBlock [Other 0] [] [],
         1 := mkBlock [Barrier] [] [])\<rparr>"

text \<open>A barrier block whose only predecessor is the block itself.\<close>

definition selfLoopBarrier :: func where
  "selfLoopBarrier =
     \<lparr>layout = [0, 1],
      blk = noBlock
        (0 := mkBlock [Other 0] [] [],
         1 := mkBlock [Barrier] [1] [1])\<rparr>"

section \<open>The injection loop\<close>

lemma isaBarrier_getFirstNonPHI: "isaBarrier B (getFirstNonPHI B) = startsWithBarrier B"
proof -
  let ?xs = "insts B" and ?k = "length (takeWhile isPHI (insts B))"
  have d: "dropWhile isPHI ?xs = drop ?k ?xs"
    by (rule dropWhile_eq_drop)
  show ?thesis
  proof (cases "?k < length ?xs")
    case True
    then have "drop ?k ?xs = ?xs ! ?k # drop (Suc ?k) ?xs"
      by (simp add: Cons_nth_drop_Suc)
    with d have "dropWhile isPHI ?xs = ?xs ! ?k # drop (Suc ?k) ?xs"
      by simp
    then show ?thesis
      using True unfolding isaBarrier_def getFirstNonPHI_def startsWithBarrier_def
      by simp
  next
    case False
    with d have e: "dropWhile isPHI ?xs = []"
      by simp
    show ?thesis
      using False unfolding isaBarrier_def getFirstNonPHI_def startsWithBarrier_def e
      by simp
  qed
qed

lemma Barrier_Create_getFirstNonPHI: "Barrier_Create B (getFirstNonPHI B) = withBarrierAtHead B"
  by (simp add: Barrier_Create_def getFirstNonPHI_def withBarrierAtHead_def
      takeWhile_eq_take [symmetric] dropWhile_eq_drop [symmetric])

lemma startsWithBarrier_withBarrierAtHead: "startsWithBarrier (withBarrierAtHead B)"
proof -
  let ?rest = "Barrier # dropWhile isPHI (insts B)"
  have "\<And>x. x \<in> set (takeWhile isPHI (insts B)) \<Longrightarrow> isPHI x"
    by (rule set_takeWhileD [THEN conjunct2])
  then have "dropWhile isPHI (takeWhile isPHI (insts B) @ ?rest) = dropWhile isPHI ?rest"
    by (rule dropWhile_append2)
  also have "\<dots> = ?rest"
    by (simp add: isPHI_def)
  finally show ?thesis
    by (simp add: startsWithBarrier_def withBarrierAtHead_def)
qed

lemma layout_injectBarriers: "layout (injectBarriers F ss) = layout F"
  by (induction ss arbitrary: F) (simp_all add: Let_def)

lemma injectBarriers_Cons:
  "injectBarriers F (s # ss) =
     (if startsWithBarrier (blk F s) then injectBarriers F ss
      else injectBarriers (F\<lparr>blk := (blk F)(s := withBarrierAtHead (blk F s))\<rparr>) ss)"
  by (simp add: Let_def isaBarrier_getFirstNonPHI Barrier_Create_getFirstNonPHI)

lemma blk_injectBarriers:
  "blk (injectBarriers F ss) s =
     (if s \<in> set ss \<and> \<not> startsWithBarrier (blk F s) then withBarrierAtHead (blk F s)
      else blk F s)"
proof (induction ss arbitrary: F)
  case Nil
  show ?case by simp
next
  case (Cons s0 ss)
  show ?case
  proof (cases "startsWithBarrier (blk F s0)")
    case True
    then show ?thesis
      unfolding injectBarriers_Cons using Cons.IH [of F] by auto
  next
    case False
    let ?F1 = "F\<lparr>blk := (blk F)(s0 := withBarrierAtHead (blk F s0))\<rparr>"
    have "blk (injectBarriers F (s0 # ss)) s = blk (injectBarriers ?F1 ss) s"
      unfolding injectBarriers_Cons using False by simp
    also have "\<dots> = (if s \<in> set ss \<and> \<not> startsWithBarrier (blk ?F1 s)
        then withBarrierAtHead (blk ?F1 s) else blk ?F1 s)"
      by (rule Cons.IH)
    also have "\<dots> = (if s \<in> set (s0 # ss) \<and> \<not> startsWithBarrier (blk F s)
        then withBarrierAtHead (blk F s) else blk F s)"
      using False by (cases "s = s0") (simp_all add: startsWithBarrier_withBarrierAtHead)
    finally show ?thesis .
  qed
qed

section \<open>The loop over the conditional barriers, as a relation\<close>

lemma barriersAdded_refl: "barriersAdded F F"
  by (simp add: barriersAdded_def)

lemma barriersAdded_injectBarriers:
  assumes "barriersAdded F F1"
  shows "barriersAdded F (injectBarriers F1 ss)"
proof -
  have "blk (injectBarriers F1 ss) s = blk F s \<or>
        (\<not> startsWithBarrier (blk F s) \<and> blk (injectBarriers F1 ss) s = withBarrierAtHead (blk F s))"
    for s
  proof -
    from assms consider (same) "blk F1 s = blk F s"
      | (added) "\<not> startsWithBarrier (blk F s)" "blk F1 s = withBarrierAtHead (blk F s)"
      by (auto simp: barriersAdded_def)
    then show ?thesis
    proof cases
      case same
      then show ?thesis by (simp add: blk_injectBarriers)
    next
      case added
      then show ?thesis
        by (simp add: blk_injectBarriers startsWithBarrier_withBarrierAtHead)
    qed
  qed
  moreover from assms have "layout (injectBarriers F1 ss) = layout F"
    by (simp add: layout_injectBarriers barriersAdded_def)
  ultimately show ?thesis
    by (simp add: barriersAdded_def)
qed

lemma barriersAdded_repairBarriers:
  "barriersAdded F F1 \<Longrightarrow> repairBarriers ora bs changed F1 = Some (Inr (changed', F'))
     \<Longrightarrow> barriersAdded F F'"
proof (induction bs arbitrary: changed F1)
  case Nil
  then show ?case by simp
next
  case (Cons b bs)
  from Cons.prems(2) obtain pos where pos: "traceSplitPoint ora F1 b = Some (Inr pos)"
    by (auto split: option.splits sum.splits)
  show ?case
  proof (cases "isBarrierBlock ora (blk F1 pos) \<or> pos = b")
    case True
    with Cons.prems(2) pos have "repairBarriers ora bs changed F1 = Some (Inr (changed', F'))"
      by auto
    with Cons.IH Cons.prems(1) show ?thesis by blast
  next
    case False
    with Cons.prems(2) pos
    have "repairBarriers ora bs True (injectBarriers F1 (succs (blk F1 pos)))
            = Some (Inr (changed', F'))"
      by auto
    with Cons.IH barriersAdded_injectBarriers [OF Cons.prems(1)] show ?thesis by blast
  qed
qed

lemma barriersAdded_runOnFunction:
  assumes "runOnFunction ora F = Some (Inr (changed, F'))"
  shows "barriersAdded F F'"
proof (cases "isKernelToProcess ora F \<and> collectConditionalBarriers ora F [] (layout F) \<noteq> []")
  case True
  with assms have "repairBarriers ora (collectConditionalBarriers ora F [] (layout F)) False F
      = Some (Inr (changed, F'))"
    by (simp add: runOnFunction_def Let_def)
  with barriersAdded_refl show ?thesis
    by (rule barriersAdded_repairBarriers)
next
  case False
  with assms have "F' = F"
    by (auto simp: runOnFunction_def Let_def split: if_splits)
  then show ?thesis
    by (simp add: barriersAdded_refl)
qed

lemma repairBarriers_flag_stays:
  "repairBarriers ora bs True F1 = Some (Inr (changed', F')) \<Longrightarrow> changed'"
  by (induction bs arbitrary: F1) (auto split: option.splits sum.splits if_splits)

lemma repairBarriers_unchanged:
  "repairBarriers ora bs changed F1 = Some (Inr (False, F')) \<Longrightarrow> F' = F1"
proof (induction bs arbitrary: changed F1)
  case Nil
  then show ?case by simp
next
  case (Cons b bs)
  then show ?case
    by (auto split: option.splits sum.splits if_splits dest: repairBarriers_flag_stays)
qed

lemma collectConditionalBarriers_filter:
  "collectConditionalBarriers ora F acc bs =
     acc @ filter (\<lambda>b. hasBarrier ora (blk F b) \<and> \<not> PDT_dominates ora b (getEntryBlock F)) bs"
  by (induction bs arbitrary: acc) simp_all

lemma repairBarriers_flag:
  "repairBarriers ora bs False F = Some (Inr (changed, F'))
     \<Longrightarrow> changed = (\<exists>b \<in> set bs. splitPointLocated ora F b)"
proof (induction bs)
  case Nil
  then show ?case by simp
next
  case (Cons b bs)
  from Cons.prems obtain pos where pos: "traceSplitPoint ora F b = Some (Inr pos)"
    by (auto split: option.splits sum.splits)
  show ?case
  proof (cases "isBarrierBlock ora (blk F pos) \<or> pos = b")
    case True
    with pos have "\<not> splitPointLocated ora F b"
      by (auto simp: splitPointLocated_def)
    moreover from True pos Cons.prems
    have "repairBarriers ora bs False F = Some (Inr (changed, F'))"
      by auto
    then have "changed = (\<exists>b \<in> set bs. splitPointLocated ora F b)"
      by (rule Cons.IH)
    ultimately show ?thesis
      by simp
  next
    case False
    with pos have "splitPointLocated ora F b"
      by (auto simp: splitPointLocated_def)
    moreover from False pos Cons.prems
    have "repairBarriers ora bs True (injectBarriers F (succs (blk F pos)))
        = Some (Inr (changed, F'))"
      by auto
    then have changed
      by (rule repairBarriers_flag_stays)
    ultimately show ?thesis
      by simp
  qed
qed

section \<open>What the reachability search computes\<close>

lemma reachFrom_keeps: "set seen \<subseteq> set (reachFrom step rounds seen)"
proof (induction rounds arbitrary: seen)
  case Nil
  show ?case by simp
next
  case (Cons r rounds)
  have "set seen \<subseteq> set (remdups (seen @ concat (map step seen)))"
    by auto
  also have "\<dots> \<subseteq> set (reachFrom step rounds (remdups (seen @ concat (map step seen))))"
    by (rule Cons.IH)
  finally show ?case
    by simp
qed

lemma reachFrom_sound:
  "set (reachFrom step rounds seen) \<subseteq> (stepEdges step)\<^sup>* `` set seen"
proof (induction rounds arbitrary: seen)
  case Nil
  show ?case by auto
next
  case (Cons r rounds)
  let ?next = "remdups (seen @ concat (map step seen))"
  have one: "set ?next \<subseteq> (stepEdges step)\<^sup>* `` set seen"
    by (auto simp: stepEdges_def)
  have two: "(stepEdges step)\<^sup>* `` set ?next \<subseteq> (stepEdges step)\<^sup>* `` set seen"
  proof
    fix y
    assume "y \<in> (stepEdges step)\<^sup>* `` set ?next"
    then obtain n where n: "n \<in> set ?next" "(n, y) \<in> (stepEdges step)\<^sup>*"
      by blast
    with one obtain s where s: "s \<in> set seen" "(s, n) \<in> (stepEdges step)\<^sup>*"
      by blast
    from s(2) n(2) have "(s, y) \<in> (stepEdges step)\<^sup>*"
      by (rule rtrancl_trans)
    with s(1) show "y \<in> (stepEdges step)\<^sup>* `` set seen"
      by blast
  qed
  have "set (reachFrom step (r # rounds) seen) = set (reachFrom step rounds ?next)"
    by simp
  also have "\<dots> \<subseteq> (stepEdges step)\<^sup>* `` set ?next"
    by (rule Cons.IH)
  also note two
  finally show ?case .
qed

lemma reachFrom_saturated:
  assumes "\<forall>x \<in> set (reachFrom step rounds seen). set (step x) \<subseteq> set (reachFrom step rounds seen)"
  shows "set (reachFrom step rounds seen) = (stepEdges step)\<^sup>* `` set seen"
proof
  show "set (reachFrom step rounds seen) \<subseteq> (stepEdges step)\<^sup>* `` set seen"
    by (rule reachFrom_sound)
  have "y \<in> set (reachFrom step rounds seen)" if "(s, y) \<in> (stepEdges step)\<^sup>*" "s \<in> set seen" for s y
    using that
  proof (induction rule: rtrancl_induct)
    case base
    with reachFrom_keeps [of seen step rounds] show ?case
      by auto
  next
    case (step y z)
    with assms show ?case
      by (auto simp: stepEdges_def)
  qed
  then show "(stepEdges step)\<^sup>* `` set seen \<subseteq> set (reachFrom step rounds seen)"
    by auto
qed

text \<open>
  In \<open>twoEntryLoop\<close> the blocks that a path from 2 or from 3 can reach without passing
  through 4 are 2 and 3, the paths being those of the graph: none of them is an exit.
\<close>

lemma twoEntryLoop_loop_closed:
  assumes "s = 2 \<or> s = 3"
  shows "set (reachableAvoiding twoEntryLoop 4 s) = {2, 3} \<and>
     set (reachableAvoiding twoEntryLoop 4 s)
       = (stepEdges (\<lambda>x. filter (\<lambda>y. y \<noteq> 4) (succs (blk twoEntryLoop x))))\<^sup>* `` {s}"
proof -
  let ?step = "\<lambda>x. filter (\<lambda>y. y \<noteq> 4) (succs (blk twoEntryLoop x))"
  let ?found = "reachFrom ?step (layout twoEntryLoop) [s]"
  have "reachFrom ?step (layout twoEntryLoop) [2] = [3, 2]"
    "reachFrom ?step (layout twoEntryLoop) [3] = [2, 3]"
    by (simp_all add: twoEntryLoop_def mkBlock_def noBlock_def)
  with assms have r: "set ?found = {2, 3}"
    by auto
  have "set (?step 2) \<subseteq> {2, 3}" "set (?step 3) \<subseteq> {2, 3}"
    by (simp_all add: twoEntryLoop_def mkBlock_def noBlock_def)
  then have "\<forall>x \<in> {2, 3}. set (?step x) \<subseteq> {2, 3}"
    by blast
  then have "\<forall>x \<in> set ?found. set (?step x) \<subseteq> set ?found"
    unfolding r .
  then have "set ?found = (stepEdges ?step)\<^sup>* `` set [s]"
    by (rule reachFrom_saturated)
  moreover from assms have "reachableAvoiding twoEntryLoop 4 s = ?found"
    by (auto simp: reachableAvoiding_def)
  ultimately show ?thesis
    using r by simp
qed

section \<open>The examples, evaluated\<close>

lemmas example_defs = specOracles_def mkBlock_def noBlock_def getEntryBlock_def
  cfgDominates_def cfgPostDominates_def reachableAvoiding_def startsWithBarrier_def
  isPHI_def firstNonBackedgePredecessor_def traceSplitPoint_def runOnFunction_def
  traceLoop.simps

lemma collect_diamondUnsafe:
  "collectConditionalBarriers (specOracles diamondUnsafe) diamondUnsafe [] (layout diamondUnsafe) = [2]"
  by (simp add: diamondUnsafe_def example_defs)

lemma trace_diamondUnsafe:
  "traceSplitPoint (specOracles diamondUnsafe) diamondUnsafe 2 = Some (Inr 1)"
  by (simp add: diamondUnsafe_def example_defs)

lemma inject_diamondUnsafe:
  "injectBarriers diamondUnsafe [2, 3] = diamondRepaired"
  by (simp add: diamondUnsafe_def diamondRepaired_def example_defs Let_def getFirstNonPHI_def isaBarrier_def Barrier_Create_def)

lemma run_diamondUnsafe:
  "runOnFunction (specOracles diamondUnsafe) diamondUnsafe = Some (Inr (True, diamondRepaired))"
proof -
  have "succs (blk diamondUnsafe 1) = [2, 3]" "\<not> startsWithBarrier (blk diamondUnsafe 1)"
    by (simp_all add: diamondUnsafe_def example_defs)
  then show ?thesis
    using collect_diamondUnsafe trace_diamondUnsafe inject_diamondUnsafe
    by (simp add: runOnFunction_def specOracles_def)
qed

lemma run_diamondSafe:
  "runOnFunction (specOracles diamondSafe) diamondSafe = Some (Inr (False, diamondSafe))"
  by (simp add: diamondSafe_def example_defs)

lemma run_bothGuarded:
  "runOnFunction (specOracles bothGuarded) bothGuarded = Some (Inr (True, bothGuarded))"
  by (simp add: bothGuarded_def example_defs Let_def getFirstNonPHI_def isaBarrier_def)

lemma run_diamondRepaired:
  "runOnFunction (specOracles diamondRepaired) diamondRepaired = Some (Inr (True, diamondRepaired))"
  by (simp add: diamondRepaired_def diamondUnsafe_def example_defs Let_def getFirstNonPHI_def isaBarrier_def)

lemma diamondRepaired_differs: "blk diamondRepaired 3 \<noteq> blk diamondUnsafe 3"
  by (simp add: diamondRepaired_def diamondUnsafe_def mkBlock_def)

lemma barriersAdded_topology:
  assumes "barriersAdded F F'"
  shows "layout F' = layout F" and "succs (blk F' s) = succs (blk F s)"
    and "preds (blk F' s) = preds (blk F s)"
  using assms by (auto simp: barriersAdded_def withBarrierAtHead_def dest: spec [of _ s])

lemma filter_withBarrierAtHead:
  "filter (\<lambda>i. i \<noteq> Barrier) (insts (withBarrierAtHead B)) = filter (\<lambda>i. i \<noteq> Barrier) (insts B)"
proof -
  let ?keep = "filter (\<lambda>i. i \<noteq> Barrier)"
  have "?keep (takeWhile isPHI (insts B) @ Barrier # dropWhile isPHI (insts B))
      = ?keep (takeWhile isPHI (insts B)) @ ?keep (dropWhile isPHI (insts B))"
    by simp
  also have "\<dots> = ?keep (insts B)"
    by (simp only: filter_append [symmetric] takeWhile_dropWhile_id)
  finally show ?thesis
    by (simp add: withBarrierAtHead_def)
qed

lemma same_topology_same_dominance:
  assumes "layout F' = layout F" and "\<And>s. succs (blk F' s) = succs (blk F s)"
  shows "cfgDominates F' = cfgDominates F" and "cfgPostDominates F' = cfgPostDominates F"
proof -
  have "reachableAvoiding F' = reachableAvoiding F"
    by (simp add: reachableAvoiding_def assms fun_eq_iff)
  then show "cfgDominates F' = cfgDominates F" and "cfgPostDominates F' = cfgPostDominates F"
    by (simp_all add: cfgDominates_def cfgPostDominates_def getEntryBlock_def assms fun_eq_iff)
qed

section \<open>Frame of the pass\<close>

text \<open>
  C7: a run that returns leaves the layout, the successor lists and the predecessor
  lists as they were; every block is unchanged or has one new barrier marker at its
  head, so the operations that are not barrier markers stay in place and in order; the
  dominance and post-dominance relations of the graph are the same afterwards.
\<close>

theorem repair_only_adds_barriers:
  assumes "runOnFunction ora F = Some (Inr (changed, F'))"
  shows "layout F' = layout F \<and>
         (\<forall>s. succs (blk F' s) = succs (blk F s) \<and> preds (blk F' s) = preds (blk F s) \<and>
              (blk F' s = blk F s \<or> blk F' s = withBarrierAtHead (blk F s)) \<and>
              filter (\<lambda>i. i \<noteq> Barrier) (insts (blk F' s)) = filter (\<lambda>i. i \<noteq> Barrier) (insts (blk F s))) \<and>
         cfgDominates F' = cfgDominates F \<and> cfgPostDominates F' = cfgPostDominates F"
proof -
  from assms have rel: "barriersAdded F F'"
    by (rule barriersAdded_runOnFunction)
  have insts: "blk F' s = blk F s \<or> blk F' s = withBarrierAtHead (blk F s)" for s
    using rel by (auto simp: barriersAdded_def)
  have kept: "filter (\<lambda>i. i \<noteq> Barrier) (insts (blk F' s)) = filter (\<lambda>i. i \<noteq> Barrier) (insts (blk F s))" for s
    using insts [of s] by (auto simp: filter_withBarrierAtHead)
  note topo = barriersAdded_topology [OF rel]
  from topo(1) topo(2) have "cfgDominates F' = cfgDominates F" "cfgPostDominates F' = cfgPostDominates F"
    by (rule same_topology_same_dominance)+
  with topo insts kept show ?thesis
    by simp
qed

theorem repair_only_adds_barriers_witness:
  "layout diamondRepaired = layout diamondUnsafe \<and>
   blk diamondRepaired 3 = withBarrierAtHead (blk diamondUnsafe 3) \<and>
   blk diamondRepaired 2 = blk diamondUnsafe 2 \<and>
   cfgPostDominates diamondRepaired = cfgPostDominates diamondUnsafe"
proof -
  note r = repair_only_adds_barriers [OF run_diamondUnsafe]
  from r have "blk diamondRepaired 3 = blk diamondUnsafe 3 \<or>
      blk diamondRepaired 3 = withBarrierAtHead (blk diamondUnsafe 3)"
    by blast
  with diamondRepaired_differs have "blk diamondRepaired 3 = withBarrierAtHead (blk diamondUnsafe 3)"
    by simp
  moreover have "blk diamondRepaired 2 = blk diamondUnsafe 2"
    by (simp add: diamondRepaired_def)
  ultimately show ?thesis
    using r by simp
qed

section \<open>Running the pass again\<close>

text \<open>
  C8: a block that the first run changed begins with a barrier marker afterwards, and a
  second run on the result of the first leaves that block as it is.
\<close>

theorem second_run_keeps_repaired_sites:
  assumes "runOnFunction ora F = Some (Inr (changed, F1))"
    and "runOnFunction ora F1 = Some (Inr (changed', F2))"
    and "blk F1 s \<noteq> blk F s"
  shows "startsWithBarrier (blk F1 s) \<and> blk F2 s = blk F1 s"
proof -
  from assms(1) have "barriersAdded F F1"
    by (rule barriersAdded_runOnFunction)
  with assms(3) have "blk F1 s = withBarrierAtHead (blk F s)"
    by (auto simp: barriersAdded_def)
  then have guarded: "startsWithBarrier (blk F1 s)"
    by (simp add: startsWithBarrier_withBarrierAtHead)
  from assms(2) have "barriersAdded F1 F2"
    by (rule barriersAdded_runOnFunction)
  with guarded have "blk F2 s = blk F1 s"
    by (auto simp: barriersAdded_def)
  with guarded show ?thesis
    by simp
qed

theorem second_run_keeps_repaired_sites_witness:
  "runOnFunction (specOracles diamondUnsafe) diamondUnsafe = Some (Inr (True, diamondRepaired)) \<and>
   runOnFunction (specOracles diamondUnsafe) diamondRepaired = Some (Inr (True, diamondRepaired)) \<and>
   blk diamondRepaired 3 \<noteq> blk diamondUnsafe 3 \<and>
   startsWithBarrier (blk diamondRepaired 3)"
proof -
  have same: "specOracles diamondRepaired = specOracles diamondUnsafe"
    using same_topology_same_dominance [of diamondRepaired diamondUnsafe]
    by (simp add: specOracles_def diamondRepaired_def diamondUnsafe_def mkBlock_def)
  from run_diamondRepaired same
  have second: "runOnFunction (specOracles diamondUnsafe) diamondRepaired = Some (Inr (True, diamondRepaired))"
    by simp
  from second_run_keeps_repaired_sites [OF run_diamondUnsafe second diamondRepaired_differs]
  show ?thesis
    using run_diamondUnsafe second diamondRepaired_differs by simp
qed

section \<open>The changed flag\<close>

text \<open>
  C1, as amended: a run returns true exactly when the function is a kernel and a split
  point is located for at least one conditional barrier; so it returns true whenever it
  inserted a marker, and also when the successors of the split point all begin with a
  barrier marker already and nothing is inserted. The flag is set after the loop over the
  successors, not inside it.
\<close>

theorem changed_iff_split_point:
  assumes "runOnFunction ora F = Some (Inr (changed, F'))"
  shows "(F' \<noteq> F \<longrightarrow> changed) \<and>
         (changed \<longleftrightarrow>
            isKernelToProcess ora F \<and>
            (\<exists>b \<in> set (collectConditionalBarriers ora F [] (layout F)).
               \<exists>pos. traceSplitPoint ora F b = Some (Inr pos) \<and>
                     \<not> isBarrierBlock ora (blk F pos) \<and> pos \<noteq> b))"
proof -
  let ?cbs = "collectConditionalBarriers ora F [] (layout F)"
  have flag: "changed \<longleftrightarrow> isKernelToProcess ora F \<and> (\<exists>b \<in> set ?cbs. splitPointLocated ora F b)"
  proof (cases "isKernelToProcess ora F \<and> ?cbs \<noteq> []")
    case True
    with assms have "repairBarriers ora ?cbs False F = Some (Inr (changed, F'))"
      by (simp add: runOnFunction_def Let_def)
    then have "changed = (\<exists>b \<in> set ?cbs. splitPointLocated ora F b)"
      by (rule repairBarriers_flag)
    with True show ?thesis
      by simp
  next
    case False
    with assms have "\<not> changed"
      by (auto simp: runOnFunction_def Let_def split: if_splits)
    with False show ?thesis
      by auto
  qed
  have inserted: changed if "F' \<noteq> F"
  proof (rule ccontr)
    assume "\<not> changed"
    with assms have run: "runOnFunction ora F = Some (Inr (False, F'))"
      by simp
    have "F' = F"
    proof (cases "isKernelToProcess ora F \<and> ?cbs \<noteq> []")
      case True
      with run have "repairBarriers ora ?cbs False F = Some (Inr (False, F'))"
        by (simp add: runOnFunction_def Let_def)
      then show ?thesis
        by (rule repairBarriers_unchanged)
    next
      case False
      with run show ?thesis
        by (auto simp: runOnFunction_def Let_def split: if_splits)
    qed
    with that show False
      by simp
  qed
  from flag inserted show ?thesis
    unfolding splitPointLocated_def by blast
qed

theorem changed_iff_split_point_witness:
  "\<exists>changed F'. runOnFunction (specOracles diamondUnsafe) diamondUnsafe = Some (Inr (changed, F')) \<and>
      F' \<noteq> diamondUnsafe \<and> changed \<and>
      traceSplitPoint (specOracles diamondUnsafe) diamondUnsafe 2 = Some (Inr 1)"
proof -
  have "diamondRepaired \<noteq> diamondUnsafe"
    using diamondRepaired_differs by auto
  with changed_iff_split_point [OF run_diamondUnsafe] run_diamondUnsafe trace_diamondUnsafe
  show ?thesis
    by blast
qed

text \<open>
  C1 as stated fails: in \<open>bothGuarded\<close> the split point is the entry block and both of
  its successors already begin with a barrier marker; nothing is inserted and the run
  returns true.
\<close>

theorem changed_without_insertion:
  "isKernelToProcess (specOracles bothGuarded) bothGuarded \<and>
   runOnFunction (specOracles bothGuarded) bothGuarded = Some (Inr (True, bothGuarded))"
  using run_bothGuarded by (simp add: specOracles_def)

section \<open>Insertion at the split point\<close>

text \<open>
  C5: when the trace for \<open>b\<close> ends at a block \<open>pos\<close> that is not a barrier block and is
  not \<open>b\<close>, the iteration sets the flag and leaves a function in which every successor
  of \<open>pos\<close> whose first operation after the PHI nodes is not a barrier marker has a new
  marker exactly there, before every other operation, and every other block is unchanged.
\<close>

theorem split_point_injects_barriers:
  assumes "traceSplitPoint ora F b = Some (Inr pos)"
    and "\<not> isBarrierBlock ora (blk F pos)" and "pos \<noteq> b"
  shows "\<exists>F'. (\<forall>bs. repairBarriers ora (b # bs) changed F = repairBarriers ora bs True F') \<and>
           layout F' = layout F \<and>
           (\<forall>s. blk F' s =
              (if s \<in> set (succs (blk F pos)) \<and> \<not> startsWithBarrier (blk F s)
               then (blk F s)\<lparr>insts := takeWhile isPHI (insts (blk F s)) @ Barrier #
                                         dropWhile isPHI (insts (blk F s))\<rparr>
               else blk F s))"
proof (intro exI conjI allI)
  let ?F' = "injectBarriers F (succs (blk F pos))"
  show "repairBarriers ora (b # bs) changed F = repairBarriers ora bs True ?F'" for bs
    using assms by simp
  show "layout ?F' = layout F"
    by (rule layout_injectBarriers)
  show "blk ?F' s =
      (if s \<in> set (succs (blk F pos)) \<and> \<not> startsWithBarrier (blk F s)
       then (blk F s)\<lparr>insts := takeWhile isPHI (insts (blk F s)) @ Barrier #
                                 dropWhile isPHI (insts (blk F s))\<rparr>
       else blk F s)" for s
    by (simp add: blk_injectBarriers withBarrierAtHead_def)
qed

theorem split_point_injects_barriers_witness:
  "\<exists>F'. repairBarriers (specOracles diamondUnsafe) [2] False diamondUnsafe = Some (Inr (True, F')) \<and>
      layout F' = layout diamondUnsafe \<and>
      insts (blk F' 3) = [PHINode 5, Barrier, Other 3] \<and>
      insts (blk F' 2) = [Barrier] \<and> blk F' 1 = blk diamondUnsafe 1"
proof -
  have nb: "\<not> isBarrierBlock (specOracles diamondUnsafe) (blk diamondUnsafe 1)"
    by (simp add: diamondUnsafe_def example_defs)
  have ne: "(1::nat) \<noteq> 2"
    by simp
  from split_point_injects_barriers [OF trace_diamondUnsafe nb ne, of False]
  obtain F' where
    loop: "\<forall>bs. repairBarriers (specOracles diamondUnsafe) (2 # bs) False diamondUnsafe
        = repairBarriers (specOracles diamondUnsafe) bs True F'"
    and lay: "layout F' = layout diamondUnsafe"
    and blks: "\<forall>s. blk F' s =
        (if s \<in> set (succs (blk diamondUnsafe 1)) \<and> \<not> startsWithBarrier (blk diamondUnsafe s)
         then (blk diamondUnsafe s)\<lparr>insts := takeWhile isPHI (insts (blk diamondUnsafe s)) @ Barrier #
                                   dropWhile isPHI (insts (blk diamondUnsafe s))\<rparr>
         else blk diamondUnsafe s)"
    by blast
  from loop have "repairBarriers (specOracles diamondUnsafe) [2] False diamondUnsafe = Some (Inr (True, F'))"
    by simp
  moreover from blks have "insts (blk F' 3) = [PHINode 5, Barrier, Other 3]"
    "insts (blk F' 2) = [Barrier]" "blk F' 1 = blk diamondUnsafe 1"
    by (simp_all add: diamondUnsafe_def example_defs)
  ultimately show ?thesis
    using lay by blast
qed

section \<open>Unconditional barriers\<close>

text \<open>
  C6: the conditional barriers are the blocks of the layout, in layout order, that have
  a barrier and do not post-dominate the entry block; a block that post-dominates the
  entry block is never in the list; when the list is empty, and so when no block has a
  barrier, the run returns false and the function is unchanged; otherwise the run is the
  loop over exactly this list.
\<close>

theorem unconditional_barriers_skipped:
  "collectConditionalBarriers ora F [] (layout F)
     = filter (\<lambda>b. hasBarrier ora (blk F b) \<and> \<not> PDT_dominates ora b (getEntryBlock F)) (layout F) \<and>
   (PDT_dominates ora b (getEntryBlock F) \<longrightarrow>
      b \<notin> set (collectConditionalBarriers ora F [] (layout F))) \<and>
   (collectConditionalBarriers ora F [] (layout F) = [] \<longrightarrow>
      runOnFunction ora F = Some (Inr (False, F))) \<and>
   ((\<forall>x \<in> set (layout F). \<not> hasBarrier ora (blk F x)) \<longrightarrow>
      runOnFunction ora F = Some (Inr (False, F))) \<and>
   (isKernelToProcess ora F \<and> collectConditionalBarriers ora F [] (layout F) \<noteq> [] \<longrightarrow>
      runOnFunction ora F = repairBarriers ora (collectConditionalBarriers ora F [] (layout F)) False F)"
proof -
  have eq: "collectConditionalBarriers ora F [] (layout F)
     = filter (\<lambda>b. hasBarrier ora (blk F b) \<and> \<not> PDT_dominates ora b (getEntryBlock F)) (layout F)"
    by (simp add: collectConditionalBarriers_filter)
  have empty: "runOnFunction ora F = Some (Inr (False, F))"
    if "collectConditionalBarriers ora F [] (layout F) = []"
    using that by (simp add: runOnFunction_def)
  have none: "collectConditionalBarriers ora F [] (layout F) = []"
    if "\<forall>x \<in> set (layout F). \<not> hasBarrier ora (blk F x)"
    using that by (simp add: eq filter_empty_conv)
  have loop: "runOnFunction ora F = repairBarriers ora (collectConditionalBarriers ora F [] (layout F)) False F"
    if "isKernelToProcess ora F \<and> collectConditionalBarriers ora F [] (layout F) \<noteq> []"
    using that by (simp add: runOnFunction_def Let_def)
  have skipped: "b \<notin> set (collectConditionalBarriers ora F [] (layout F))"
    if "PDT_dominates ora b (getEntryBlock F)"
    using that by (simp add: eq)
  from eq empty none loop skipped show ?thesis
    by blast
qed

theorem unconditional_barriers_skipped_witness:
  "PDT_dominates (specOracles diamondSafe) 4 (getEntryBlock diamondSafe) \<and>
   hasBarrier (specOracles diamondSafe) (blk diamondSafe 4) \<and>
   4 \<notin> set (collectConditionalBarriers (specOracles diamondSafe) diamondSafe [] (layout diamondSafe)) \<and>
   collectConditionalBarriers (specOracles diamondSafe) diamondSafe [] (layout diamondSafe) = [] \<and>
   runOnFunction (specOracles diamondSafe) diamondSafe = Some (Inr (False, diamondSafe))"
proof -
  have p: "PDT_dominates (specOracles diamondSafe) 4 (getEntryBlock diamondSafe)"
    and h: "hasBarrier (specOracles diamondSafe) (blk diamondSafe 4)"
    and e: "collectConditionalBarriers (specOracles diamondSafe) diamondSafe [] (layout diamondSafe) = []"
    by (simp_all add: diamondSafe_def example_defs)
  from unconditional_barriers_skipped [of "specOracles diamondSafe" diamondSafe 4] p h e
  show ?thesis
    by simp
qed

section \<open>The conditional barriers are fixed before the first insertion\<close>

lemma firstNonBackedgePredecessor_hasBarrier:
  "firstNonBackedgePredecessor (ora\<lparr>hasBarrier := hb\<rparr>) F x = firstNonBackedgePredecessor ora F x"
  by (cases "preds (blk F x)") (simp_all add: firstNonBackedgePredecessor_def)

lemma traceLoop_hasBarrier_Some:
  "traceLoop ora F b pos = Some y \<Longrightarrow> traceLoop (ora\<lparr>hasBarrier := hb\<rparr>) F b pos = Some y"
proof (induction arbitrary: hb rule: traceLoop.raw_induct [rotated 1, consumes 1, case_names step])
  case (step f ora F b pos y)
  show ?case
  proof (cases pos)
    case None
    with step.hyps show ?thesis
      by (subst traceLoop.simps) simp
  next
    case (Some p)
    show ?thesis
    proof (cases "\<not> isBarrierBlock ora (blk F p) \<and> PDT_dominates ora b p")
      case False
      with Some step.hyps show ?thesis
        by (subst traceLoop.simps) auto
    next
      case True
      show ?thesis
      proof (cases "firstNonBackedgePredecessor ora F p")
        case (Inl e)
        with True Some step.hyps show ?thesis
          by (subst traceLoop.simps) (simp add: firstNonBackedgePredecessor_hasBarrier)
      next
        case (Inr pos')
        show ?thesis
        proof (cases "pos' = Some b")
          case True
          with Inr \<open>\<not> isBarrierBlock ora (blk F p) \<and> PDT_dominates ora b p\<close> Some step.hyps
          show ?thesis
            by (subst traceLoop.simps) (simp add: firstNonBackedgePredecessor_hasBarrier)
        next
          case False
          with Inr \<open>\<not> isBarrierBlock ora (blk F p) \<and> PDT_dominates ora b p\<close> Some step.hyps
          have "f ora F b pos' = Some y"
            by simp
          then have "traceLoop (ora\<lparr>hasBarrier := hb\<rparr>) F b pos' = Some y"
            by (rule step.IH)
          with False Inr \<open>\<not> isBarrierBlock ora (blk F p) \<and> PDT_dominates ora b p\<close> Some
          show ?thesis
            by (subst traceLoop.simps) (simp add: firstNonBackedgePredecessor_hasBarrier)
        qed
      qed
    qed
  qed
qed

lemma traceLoop_hasBarrier:
  "traceLoop (ora\<lparr>hasBarrier := hb\<rparr>) F b pos = traceLoop ora F b pos"
proof (cases "traceLoop ora F b pos")
  case (Some y)
  then show ?thesis
    by (simp add: traceLoop_hasBarrier_Some)
next
  case None
  show ?thesis
  proof (cases "traceLoop (ora\<lparr>hasBarrier := hb\<rparr>) F b pos")
    case None
    with \<open>traceLoop ora F b pos = None\<close> show ?thesis by simp
  next
    case (Some y)
    then have "traceLoop (ora\<lparr>hasBarrier := hb, hasBarrier := hasBarrier ora\<rparr>) F b pos = Some y"
      by (rule traceLoop_hasBarrier_Some)
    with \<open>traceLoop ora F b pos = None\<close> show ?thesis by simp
  qed
qed

lemma repairBarriers_hasBarrier:
  "repairBarriers (ora\<lparr>hasBarrier := hb\<rparr>) bs changed F = repairBarriers ora bs changed F"
proof (induction bs arbitrary: changed F)
  case Nil
  show ?case by simp
next
  case (Cons b bs)
  have "traceSplitPoint (ora\<lparr>hasBarrier := hb\<rparr>) F b = traceSplitPoint ora F b"
    by (cases "firstNonBackedgePredecessor ora F b")
      (simp_all add: traceSplitPoint_def traceLoop_hasBarrier firstNonBackedgePredecessor_hasBarrier)
  then show ?case
    by (simp add: Cons.IH split: option.split sum.split)
qed

lemma collectConditionalBarriers_hasBarrier:
  assumes "\<forall>b \<in> set bs. hb (blk F b) = hasBarrier ora (blk F b)"
  shows "collectConditionalBarriers (ora\<lparr>hasBarrier := hb\<rparr>) F acc bs
       = collectConditionalBarriers ora F acc bs"
  using assms by (simp add: collectConditionalBarriers_filter cong: filter_cong)

text \<open>
  C9: the list of conditional barriers is computed from the function as it is before the
  first insertion, and the loop runs over that list. For a kernel, any barrier predicate
  that agrees with \<open>hasBarrier\<close> on the blocks as they are at the start gives the same
  run, whatever it says about blocks that hold an inserted marker: the run is the loop
  over the list collected at the start.
\<close>

theorem conditional_barriers_fixed_before_mutation:
  assumes "\<forall>b \<in> set (layout F). hb (blk F b) = hasBarrier ora (blk F b)"
    and "isKernelToProcess ora F"
  shows "runOnFunction (ora\<lparr>hasBarrier := hb\<rparr>) F
           = repairBarriers ora (collectConditionalBarriers ora F [] (layout F)) False F \<and>
         runOnFunction (ora\<lparr>hasBarrier := hb\<rparr>) F = runOnFunction ora F"
proof -
  let ?ora' = "ora\<lparr>hasBarrier := hb\<rparr>"
  let ?cbs = "collectConditionalBarriers ora F [] (layout F)"
  have collected: "collectConditionalBarriers ?ora' F [] (layout F) = ?cbs"
    using assms(1) by (rule collectConditionalBarriers_hasBarrier)
  have loop: "repairBarriers ?ora' ?cbs False F = repairBarriers ora ?cbs False F"
    by (rule repairBarriers_hasBarrier)
  have empty: "repairBarriers ora ?cbs False F = Some (Inr (False, F))" if "?cbs = []"
    using that by simp
  have new: "runOnFunction ?ora' F = repairBarriers ora ?cbs False F"
  proof (cases "?cbs = []")
    case True
    with assms(2) collected empty show ?thesis
      by (simp add: runOnFunction_def)
  next
    case False
    with assms(2) collected have "runOnFunction ?ora' F = repairBarriers ?ora' ?cbs False F"
      by (simp add: runOnFunction_def Let_def)
    with loop show ?thesis
      by simp
  qed
  have old: "runOnFunction ora F = repairBarriers ora ?cbs False F"
  proof (cases "?cbs = []")
    case True
    with assms(2) empty show ?thesis
      by (simp add: runOnFunction_def)
  next
    case False
    with assms(2) show ?thesis
      by (simp add: runOnFunction_def Let_def)
  qed
  from new old show ?thesis
    by simp
qed

text \<open>
  In \<open>diamondUnsafe\<close> the run puts a marker into block 3. A predicate that sees a barrier
  in block 2 only, so not in the marker that the run inserts, gives the same run.
\<close>

theorem conditional_barriers_fixed_before_mutation_witness:
  "runOnFunction ((specOracles diamondUnsafe)\<lparr>hasBarrier := \<lambda>B. B = blk diamondUnsafe 2\<rparr>) diamondUnsafe
      = Some (Inr (True, diamondRepaired)) \<and>
   startsWithBarrier (blk diamondRepaired 3) \<and> blk diamondRepaired 3 \<noteq> blk diamondUnsafe 2"
proof -
  have agree: "\<forall>b \<in> set (layout diamondUnsafe).
      (blk diamondUnsafe b = blk diamondUnsafe 2)
        = hasBarrier (specOracles diamondUnsafe) (blk diamondUnsafe b)"
    by (simp add: diamondUnsafe_def example_defs)
  have kernel: "isKernelToProcess (specOracles diamondUnsafe) diamondUnsafe"
    by (simp add: specOracles_def)
  have mutated: "startsWithBarrier (blk diamondRepaired 3)"
    "blk diamondRepaired 3 \<noteq> blk diamondUnsafe 2"
    by (simp_all add: diamondRepaired_def diamondUnsafe_def example_defs)
  from conditional_barriers_fixed_before_mutation [OF agree kernel]
  have "runOnFunction ((specOracles diamondUnsafe)\<lparr>hasBarrier := \<lambda>B. B = blk diamondUnsafe 2\<rparr>)
      diamondUnsafe = runOnFunction (specOracles diamondUnsafe) diamondUnsafe"
    by (rule conjunct2)
  also note run_diamondUnsafe
  finally show ?thesis
    using mutated by simp
qed

section \<open>Termination of the trace\<close>

lemma skipBackedges_Inr:
  "skipBackedges dominated ps = Inr q \<Longrightarrow> q \<in> set ps \<and> \<not> dominated q"
  by (induction ps) (auto split: if_splits)

lemma firstNonBackedgePredecessor_nonBackedge:
  assumes "firstNonBackedgePredecessor ora F x = Inr (Some p)"
  shows "(p, x) \<in> nonBackedges ora F"
proof (cases "preds (blk F x)")
  case Nil
  with assms show ?thesis
    by (simp add: firstNonBackedgePredecessor_def)
next
  case (Cons q qs)
  with assms have "skipBackedges (DT_dominates ora x) (q # qs) = Inr p"
    by (simp add: firstNonBackedgePredecessor_def del: skipBackedges.simps split: sum.splits)
  with Cons have "skipBackedges (DT_dominates ora x) (preds (blk F x)) = Inr p"
    by (simp del: skipBackedges.simps)
  then have "p \<in> set (preds (blk F x)) \<and> \<not> DT_dominates ora x p"
    by (rule skipBackedges_Inr)
  then show ?thesis
    by (simp add: nonBackedges_def)
qed

lemma traceLoop_terminates:
  assumes "wf (nonBackedges ora F)"
  shows "\<exists>r. traceLoop ora F b pos = Some r \<and> traceOutcome ora F b r"
proof (cases pos)
  case None
  then show ?thesis
    by (subst traceLoop.simps) (simp add: traceOutcome_def)
next
  case (Some p0)
  have "\<exists>r. traceLoop ora F b (Some p) = Some r \<and> traceOutcome ora F b r" for p
    using assms
  proof (induction p rule: wf_induct_rule)
    case (less p)
    show ?case
    proof (cases "\<not> isBarrierBlock ora (blk F p) \<and> PDT_dominates ora b p")
      case False
      then show ?thesis
        by (subst traceLoop.simps) (auto simp: traceOutcome_def)
    next
      case True
      show ?thesis
      proof (cases "firstNonBackedgePredecessor ora F p")
        case (Inl e)
        with True show ?thesis
          by (subst traceLoop.simps) (simp add: traceOutcome_def)
      next
        case (Inr pos')
        show ?thesis
        proof (cases pos')
          case None
          have "traceLoop ora F b None = Some (Inl NullPointer)"
            by (subst traceLoop.simps) simp
          with None Inr True show ?thesis
            by (subst traceLoop.simps) (simp add: traceOutcome_def)
        next
          case (Some q)
          show ?thesis
          proof (cases "q = b")
            case True
            with Some Inr \<open>\<not> isBarrierBlock ora (blk F p) \<and> PDT_dominates ora b p\<close> show ?thesis
              by (subst traceLoop.simps) (simp add: traceOutcome_def)
          next
            case False
            from Inr Some have "(q, p) \<in> nonBackedges ora F"
              by (simp add: firstNonBackedgePredecessor_nonBackedge)
            then have "\<exists>r. traceLoop ora F b (Some q) = Some r \<and> traceOutcome ora F b r"
              by (rule less.IH)
            with False Some Inr True show ?thesis
              by (subst traceLoop.simps) simp
          qed
        qed
      qed
    qed
  qed
  with Some show ?thesis
    by simp
qed

text \<open>
  C4, as amended: when the edges that are not back edges admit no infinite backward
  chain (as in every graph whose cycles all contain a back edge), the trace for \<open>b\<close>
  returns: with a failure on an absent ancestor, or at a barrier block, at \<open>b\<close> itself,
  or at a block that \<open>b\<close> does not post-dominate.
\<close>

theorem trace_terminates:
  assumes "wf (nonBackedges ora F)"
  shows "\<exists>r. traceSplitPoint ora F b = Some r \<and>
           (case r of
              Inl e \<Rightarrow> e = NullPointer \<or> e = PredIteratorOutOfRange
            | Inr pos \<Rightarrow> isBarrierBlock ora (blk F pos) \<or> pos = b \<or> \<not> PDT_dominates ora b pos)"
proof -
  have "\<exists>r. traceSplitPoint ora F b = Some r \<and> traceOutcome ora F b r"
  proof (cases "firstNonBackedgePredecessor ora F b")
    case (Inl e)
    then show ?thesis
      by (simp add: traceSplitPoint_def traceOutcome_def)
  next
    case (Inr pos)
    with traceLoop_terminates [OF assms, of b pos] show ?thesis
      by (simp add: traceSplitPoint_def)
  qed
  then obtain r where r: "traceSplitPoint ora F b = Some r" "traceOutcome ora F b r"
    by blast
  have "e = NullPointer \<or> e = PredIteratorOutOfRange" for e
    by (cases e) simp_all
  with r show ?thesis
    by (auto simp: traceOutcome_def split: sum.splits)
qed

lemma wf_loopBypass: "wf (nonBackedges (specOracles loopBypass) loopBypass)"
proof (rule wf_subset [OF wf_less_than])
  show "nonBackedges (specOracles loopBypass) loopBypass \<subseteq> less_than"
    by (auto simp: nonBackedges_def loopBypass_def specOracles_def cfgDominates_def
        mkBlock_def noBlock_def split: if_splits)
qed

lemma trace_loopBypass:
  "traceSplitPoint (specOracles loopBypass) loopBypass 2 = Some (Inr 0)"
  by (simp add: loopBypass_def example_defs)

theorem trace_terminates_witness:
  "wf (nonBackedges (specOracles loopBypass) loopBypass) \<and>
   (\<exists>r. traceSplitPoint (specOracles loopBypass) loopBypass 2 = Some r) \<and>
   traceSplitPoint (specOracles loopBypass) loopBypass 2 = Some (Inr 0) \<and>
   firstNonBackedgePredecessor (specOracles loopBypass) loopBypass 1 = Inr (Some 0)"
proof -
  from trace_terminates [OF wf_loopBypass, of 2]
  have "\<exists>r. traceSplitPoint (specOracles loopBypass) loopBypass 2 = Some r"
    by blast
  moreover have "firstNonBackedgePredecessor (specOracles loopBypass) loopBypass 1 = Inr (Some 0)"
    by (simp add: loopBypass_def example_defs)
  ultimately show ?thesis
    using wf_loopBypass trace_loopBypass by simp
qed

lemma twoEntryLoop_facts:
  "\<not> isBarrierBlock (specOracles twoEntryLoop) (blk twoEntryLoop 2)"
  "\<not> isBarrierBlock (specOracles twoEntryLoop) (blk twoEntryLoop 3)"
  "PDT_dominates (specOracles twoEntryLoop) 4 2"
  "PDT_dominates (specOracles twoEntryLoop) 4 3"
  "firstNonBackedgePredecessor (specOracles twoEntryLoop) twoEntryLoop 4 = Inr (Some 2)"
  "firstNonBackedgePredecessor (specOracles twoEntryLoop) twoEntryLoop 2 = Inr (Some 3)"
  "firstNonBackedgePredecessor (specOracles twoEntryLoop) twoEntryLoop 3 = Inr (Some 2)"
  by (simp_all add: twoEntryLoop_def example_defs)

lemma twoEntryLoop_never_returns:
  assumes "traceLoop ora F b pos = Some y"
  shows "\<not> (ora = specOracles twoEntryLoop \<and> F = twoEntryLoop \<and> b = 4 \<and>
            (pos = Some 2 \<or> pos = Some 3))"
  using assms
proof (induction rule: traceLoop.raw_induct [rotated 1, consumes 1, case_names step])
  case (step f ora F b pos y)
  show ?case
  proof
    assume a: "ora = specOracles twoEntryLoop \<and> F = twoEntryLoop \<and> b = 4 \<and>
            (pos = Some 2 \<or> pos = Some 3)"
    then consider "pos = Some 2" | "pos = Some 3"
      by blast
    then show False
    proof cases
      case 1
      with a step.hyps have "f ora F b (Some 3) = Some y"
        by (simp add: twoEntryLoop_facts)
      with a step.IH [of ora F b "Some 3" y] show False
        by simp
    next
      case 2
      with a step.hyps have "f ora F b (Some 2) = Some y"
        by (simp add: twoEntryLoop_facts)
      with a step.IH [of ora F b "Some 2" y] show False
        by simp
    qed
  qed
qed

lemma wellFormed_twoEntryLoop: "wellFormed twoEntryLoop"
  by (simp add: wellFormed_def twoEntryLoop_def mkBlock_def noBlock_def getEntryBlock_def)

lemma collect_twoEntryLoop:
  "collectConditionalBarriers (specOracles twoEntryLoop) twoEntryLoop [] (layout twoEntryLoop) = [4]"
  by (simp add: twoEntryLoop_def example_defs)

text \<open>
  C4 as stated fails: \<open>twoEntryLoop\<close> is well formed, with the dominance relations of
  its graph. Blocks 2 and 3 form a cycle in which neither dominates the other, the
  barrier block 4 post-dominates both, and each is the first predecessor of the other:
  the trace for 4 alternates between 2 and 3 and never returns.
\<close>

theorem two_entry_loop_trace_diverges:
  "wellFormed twoEntryLoop \<and>
   collectConditionalBarriers (specOracles twoEntryLoop) twoEntryLoop [] (layout twoEntryLoop) = [4] \<and>
   traceSplitPoint (specOracles twoEntryLoop) twoEntryLoop 4 = None \<and>
   runOnFunction (specOracles twoEntryLoop) twoEntryLoop = None"
proof -
  have "traceLoop (specOracles twoEntryLoop) twoEntryLoop 4 (Some 2) = None"
  proof (cases "traceLoop (specOracles twoEntryLoop) twoEntryLoop 4 (Some 2)")
    case None
    then show ?thesis .
  next
    case (Some y)
    from twoEntryLoop_never_returns [OF this] show ?thesis
      by simp
  qed
  then have trace: "traceSplitPoint (specOracles twoEntryLoop) twoEntryLoop 4 = None"
    by (simp add: traceSplitPoint_def twoEntryLoop_facts)
  with collect_twoEntryLoop
  have "runOnFunction (specOracles twoEntryLoop) twoEntryLoop = None"
    by (simp add: runOnFunction_def specOracles_def)
  with trace collect_twoEntryLoop wellFormed_twoEntryLoop show ?thesis
    by simp
qed

section \<open>Absent ancestors\<close>

lemma skipBackedges_all_dominated:
  "\<forall>p \<in> set ps. dominated p \<Longrightarrow> skipBackedges dominated ps = Inl PredIteratorOutOfRange"
  by (induction ps) simp_all

lemma traceLoop_None: "traceLoop ora F b None = Some (Inl NullPointer)"
  by (subst traceLoop.simps) simp

text \<open>
  What \<^verbatim>\<open>firstNonBackedgePredecessor\<close> does at the two kinds of block that have no
  ancestor, and what the loop over the conditional barriers does with \<^verbatim>\<open>NULL\<close>.
\<close>

lemma firstNonBackedgePredecessor_no_predecessor:
  "preds (blk F x) = [] \<Longrightarrow> firstNonBackedgePredecessor ora F x = Inr None"
  by (simp add: firstNonBackedgePredecessor_def)

lemma firstNonBackedgePredecessor_all_backedges:
  assumes "preds (blk F x) \<noteq> []" and "\<forall>p \<in> set (preds (blk F x)). DT_dominates ora x p"
  shows "firstNonBackedgePredecessor ora F x = Inl PredIteratorOutOfRange"
proof -
  from assms(2) have "skipBackedges (DT_dominates ora x) (preds (blk F x)) = Inl PredIteratorOutOfRange"
    by (rule skipBackedges_all_dominated)
  with assms(1) show ?thesis
    by (cases "preds (blk F x)") (simp_all add: firstNonBackedgePredecessor_def del: skipBackedges.simps)
qed

lemma repairBarriers_absent_ancestor:
  assumes "firstNonBackedgePredecessor ora F b = Inr None"
  shows "repairBarriers ora (b # bs) changed F = Some (Inl NullPointer)"
  using assms by (simp add: traceSplitPoint_def traceLoop_None)

text \<open>
  C2 fails on the code: in \<open>orphanBarrier\<close> the conditional barrier 1 has no
  predecessor, \<^verbatim>\<open>firstNonBackedgePredecessor\<close> returns \<^verbatim>\<open>NULL\<close>, and the loop condition
  applies \<^verbatim>\<open>isa<BarrierBlock>\<close> to it: the run fails instead of skipping the barrier.
  And in \<open>selfLoopBarrier\<close>, where every predecessor of block 1 is a back-edge source,
  the result is not \<^verbatim>\<open>NULL\<close>.
\<close>

theorem absent_ancestor_not_skipped:
  "wellFormed orphanBarrier \<and>
   collectConditionalBarriers (specOracles orphanBarrier) orphanBarrier [] (layout orphanBarrier) = [1] \<and>
   firstNonBackedgePredecessor (specOracles orphanBarrier) orphanBarrier 1 = Inr None \<and>
   traceSplitPoint (specOracles orphanBarrier) orphanBarrier 1 = Some (Inl NullPointer) \<and>
   runOnFunction (specOracles orphanBarrier) orphanBarrier = Some (Inl NullPointer) \<and>
   firstNonBackedgePredecessor (specOracles selfLoopBarrier) selfLoopBarrier 1 \<noteq> Inr None"
proof -
  have "wellFormed orphanBarrier"
    by (simp add: wellFormed_def orphanBarrier_def mkBlock_def noBlock_def getEntryBlock_def)
  moreover have "collectConditionalBarriers (specOracles orphanBarrier) orphanBarrier []
      (layout orphanBarrier) = [1]"
    by (simp add: orphanBarrier_def example_defs)
  moreover have none: "firstNonBackedgePredecessor (specOracles orphanBarrier) orphanBarrier 1 = Inr None"
    by (simp add: orphanBarrier_def example_defs)
  moreover from none have "traceSplitPoint (specOracles orphanBarrier) orphanBarrier 1 = Some (Inl NullPointer)"
    by (simp add: traceSplitPoint_def traceLoop_None)
  moreover have "runOnFunction (specOracles orphanBarrier) orphanBarrier = Some (Inl NullPointer)"
    by (simp add: orphanBarrier_def example_defs)
  moreover have "firstNonBackedgePredecessor (specOracles selfLoopBarrier) selfLoopBarrier 1 \<noteq> Inr None"
    by (simp add: selfLoopBarrier_def example_defs)
  ultimately show ?thesis
    by simp
qed

text \<open>
  C3 fails on the code: in \<open>selfLoopBarrier\<close> the only predecessor of block 1 is
  dominated by it, and the scan dereferences the iterator at the end of the list; and
  for a block with no predecessor the trace loop tests an absent block.
\<close>

theorem predecessor_scan_reads_past_end:
  "wellFormed selfLoopBarrier \<and>
   preds (blk selfLoopBarrier 1) = [1] \<and>
   DT_dominates (specOracles selfLoopBarrier) 1 1 \<and>
   firstNonBackedgePredecessor (specOracles selfLoopBarrier) selfLoopBarrier 1
     = Inl PredIteratorOutOfRange \<and>
   runOnFunction (specOracles selfLoopBarrier) selfLoopBarrier = Some (Inl PredIteratorOutOfRange) \<and>
   preds (blk orphanBarrier 1) = [] \<and>
   traceLoop (specOracles orphanBarrier) orphanBarrier 1 None = Some (Inl NullPointer)"
proof -
  have "wellFormed selfLoopBarrier"
    by (simp add: wellFormed_def selfLoopBarrier_def mkBlock_def noBlock_def getEntryBlock_def)
  moreover have "preds (blk selfLoopBarrier 1) = [1]" "DT_dominates (specOracles selfLoopBarrier) 1 1"
    "firstNonBackedgePredecessor (specOracles selfLoopBarrier) selfLoopBarrier 1
       = Inl PredIteratorOutOfRange"
    by (simp_all add: selfLoopBarrier_def example_defs)
  moreover have "runOnFunction (specOracles selfLoopBarrier) selfLoopBarrier
      = Some (Inl PredIteratorOutOfRange)"
    by (simp add: selfLoopBarrier_def example_defs)
  moreover have "preds (blk orphanBarrier 1) = []"
    by (simp add: orphanBarrier_def mkBlock_def)
  ultimately show ?thesis
    by (simp add: traceLoop_None)
qed

section \<open>Functions that are not kernels\<close>

text \<open>
  C10: for a function that is not a kernel to process, the pass returns false and
  the function is unchanged: same layout, same blocks, same instructions.
\<close>

theorem not_kernel_unchanged:
  "\<not> isKernelToProcess ora F \<Longrightarrow> runOnFunction ora F = Some (Inr (False, F))"
  by (simp add: runOnFunction_def)

theorem not_kernel_unchanged_witness:
  "runOnFunction ((specOracles diamondUnsafe)\<lparr>isKernelToProcess := \<lambda>_. False\<rparr>) diamondUnsafe
     = Some (Inr (False, diamondUnsafe))"
  by (rule not_kernel_unchanged) simp

end
